theory Spec2Isabelle
  imports Complex_Main "HOL-Library.Monad_Syntax"
begin

section \<open>Rotating wireframe cube: the frame generator \<^verbatim>\<open>scripts/gen_frames.py\<close>\<close>

text \<open>
  Python floats are modelled as \<^typ>\<open>real\<close>, Python integers as \<^typ>\<open>int\<close>, strings as
  \<^typ>\<open>string\<close>. An \<^verbatim>\<open>IndexError\<close> of a list access is the value \<^term>\<open>None\<close>.
  The leading underscore of the source's private names is dropped (\<^verbatim>\<open>_rot\<close> is
  \<open>rot\<close>, \<^verbatim>\<open>_VERTS\<close> is \<open>VERTS\<close>, and so on).
\<close>

subsection \<open>Constants\<close>

definition ROWS :: int where "ROWS = 17"
definition COLS :: int where "COLS = 42"
definition NUM_FRAMES :: int where "NUM_FRAMES = 36"
definition SCALE :: real where "SCALE = 4.2"
definition ASPECT :: real where "ASPECT = 2.1"

type_synonym vec3 = "real \<times> real \<times> real"
type_synonym vec2 = "real \<times> real"
type_synonym face = "int \<times> int \<times> int \<times> int"
type_synonym edge = "int \<times> int"
type_synonym canvas = "char list list"

subsection \<open>Python primitives\<close>

text \<open>\<^verbatim>\<open>round(x)\<close> of a float: the nearest integer, a tie going to the even one.\<close>

definition py_round :: "real \<Rightarrow> int" where
  "py_round x =
     (let f = \<lfloor>x\<rfloor>; d = x - of_int f
      in if d < 1 / 2 then f else if 1 / 2 < d then f + 1
         else if even f then f else f + 1)"

text \<open>A Python list index: a negative index counts from the end, anything else out of
  range raises.\<close>

definition py_norm :: "nat \<Rightarrow> int \<Rightarrow> nat option" where
  "py_norm n i =
     (let j = (if i < 0 then int n + i else i)
      in if 0 \<le> j \<and> j < int n then Some (nat j) else None)"

definition py_get :: "'a list \<Rightarrow> int \<Rightarrow> 'a option" where
  "py_get xs i = (case py_norm (length xs) i of None \<Rightarrow> None | Some j \<Rightarrow> Some (xs ! j))"

text \<open>\<^verbatim>\<open>canvas[r][c] = ch\<close>: the rows are distinct list objects, so exactly one cell
  changes.\<close>

definition canvas_set :: "canvas \<Rightarrow> int \<Rightarrow> int \<Rightarrow> char \<Rightarrow> canvas option" where
  "canvas_set canvas r c ch =
     (case py_norm (length canvas) r of
        None \<Rightarrow> None
      | Some ri \<Rightarrow>
          (case py_norm (length (canvas ! ri)) c of
             None \<Rightarrow> None
           | Some ci \<Rightarrow> Some (canvas[ri := (canvas ! ri)[ci := ch]])))"

text \<open>A \<^verbatim>\<open>for\<close> loop whose body may raise: the first exception ends it.\<close>

fun fold_opt :: "('a \<Rightarrow> 's \<Rightarrow> 's option) \<Rightarrow> 'a list \<Rightarrow> 's \<Rightarrow> 's option" where
  "fold_opt f [] s = Some s"
| "fold_opt f (x # xs) s = (case f x s of None \<Rightarrow> None | Some s' \<Rightarrow> fold_opt f xs s')"

text \<open>\<^verbatim>\<open>sep.join(parts)\<close>.\<close>

fun join :: "string \<Rightarrow> string list \<Rightarrow> string" where
  "join sep [] = []"
| "join sep [p] = p"
| "join sep (p # q # ps) = p @ sep @ join sep (q # ps)"

text \<open>\<^verbatim>\<open>str(n)\<close> of an integer, as the f-string formats it.\<close>

fun str_nat :: "nat \<Rightarrow> string" where
  "str_nat n =
     (if n < 10 then [char_of (48 + n)]
      else str_nat (n div 10) @ [char_of (48 + n mod 10)])"

definition str_int :: "int \<Rightarrow> string" where
  "str_int i = (if i < 0 then CHR ''-'' # str_nat (nat (- i)) else str_nat (nat i))"

subsection \<open>3D math\<close>

definition rot :: "real \<Rightarrow> real \<Rightarrow> real \<Rightarrow> real \<Rightarrow> real \<Rightarrow> real \<Rightarrow> vec3" where
  "rot x y z ax ay az =
     (let s = sin ax; c = cos ax;
          (y, z) = (y * c - z * s, y * s + z * c);
          s = sin ay; c = cos ay;
          (x, z) = (x * c + z * s, - x * s + z * c);
          s = sin az; c = cos az;
          (x, y) = (x * c - y * s, x * s + y * c)
      in (x, y, z))"

definition project :: "real \<Rightarrow> real \<Rightarrow> real \<Rightarrow> vec2" where
  "project x y z = (of_int COLS / 2.0 + x * ASPECT, of_int ROWS / 2.0 + y)"

subsection \<open>Cube definition\<close>

definition VERTS :: "(int \<times> int \<times> int) list" where
  "VERTS =
     [(-1, -1, -1), (1, -1, -1), (1, 1, -1), (-1, 1, -1),
      (-1, -1, 1), (1, -1, 1), (1, 1, 1), (-1, 1, 1)]"

definition EDGES :: "edge list" where
  "EDGES =
     [(0, 1), (1, 2), (2, 3), (3, 0),
      (4, 5), (5, 6), (6, 7), (7, 4),
      (0, 4), (1, 5), (2, 6), (3, 7)]"

definition FACES :: "face list" where
  "FACES =
     [(0, 3, 2, 1),
      (4, 5, 6, 7),
      (0, 1, 5, 4),
      (2, 3, 7, 6),
      (0, 4, 7, 3),
      (1, 2, 6, 5)]"

definition FACE_EDGES :: "edge set list" where
  "FACE_EDGES =
     [{(0, 1), (1, 2), (2, 3), (3, 0)},
      {(4, 5), (5, 6), (6, 7), (7, 4)},
      {(0, 1), (1, 5), (5, 4), (0, 4)},
      {(2, 3), (3, 7), (7, 6), (2, 6)},
      {(0, 3), (3, 7), (7, 4), (0, 4)},
      {(1, 2), (2, 6), (6, 5), (1, 5)}]"

text \<open>The parameter \<open>cam_z\<close> (default \<open>10.0\<close>) is not read by the body.\<close>

definition face_visible :: "vec3 list \<Rightarrow> face \<Rightarrow> real \<Rightarrow> bool option" where
  "face_visible verts_3d face cam_z =
     (case face of (a, b, c, _) \<Rightarrow>
        do {
          (ax, ay, az) \<leftarrow> py_get verts_3d a;
          (bx, by, bz) \<leftarrow> py_get verts_3d b;
          (cx, cy, cz) \<leftarrow> py_get verts_3d c;
          let (e1_0, e1_1, e1_2) = (bx - ax, by - ay, bz - az);
          let (e2_0, e2_1, e2_2) = (cx - ax, cy - ay, cz - az);
          let nx = e1_1 * e2_2 - e1_2 * e2_1;
          let ny = e1_2 * e2_0 - e1_0 * e2_2;
          let nz = e1_0 * e2_1 - e1_1 * e2_0;
          Some (nz > 0)
        })"

subsection \<open>Line drawing\<close>

text \<open>The glyph chosen from the local direction \<open>(sc, sr)\<close> (source lines 121 to 128);
  \<open>CHR 0x5C\<close> is the backslash.\<close>

definition pick_char :: "int \<Rightarrow> int \<Rightarrow> char" where
  "pick_char sc sr =
     (if sr = 0 then CHR ''-''
      else if sc = 0 then CHR ''|''
      else if (sc > 0 \<and> sr > 0) \<or> (sc < 0 \<and> sr < 0) then CHR 0x5C
      else CHR ''/'')"

text \<open>One pass of the sampling loop; the loop state is the canvas and
  \<open>(prev_c, prev_r)\<close>.\<close>

definition line_step ::
  "real \<Rightarrow> real \<Rightarrow> real \<Rightarrow> real \<Rightarrow> int \<Rightarrow> int \<Rightarrow> int \<Rightarrow> int \<Rightarrow> int \<Rightarrow>
   nat \<Rightarrow> canvas \<times> int \<times> int \<Rightarrow> (canvas \<times> int \<times> int) option" where
  "line_step c0 r0 c1 r1 ic0 ir0 ic1 ir1 steps i st =
     (case st of (canvas, prev_c, prev_r) \<Rightarrow>
        (let t = real i / of_int steps;
             c = py_round (c0 + t * (c1 - c0));
             r = py_round (r0 + t * (r1 - r0))
         in do {
              canvas' \<leftarrow>
                (if 0 \<le> r \<and> r < ROWS \<and> 0 \<le> c \<and> c < COLS then
                   (let (sc, sr) = (if i = 0 then (ic1 - ic0, ir1 - ir0)
                                    else (c - prev_c, r - prev_r))
                    in canvas_set canvas r c (pick_char sc sr))
                 else Some canvas);
              Some (canvas', c, r)
            }))"

definition draw_line :: "canvas \<Rightarrow> real \<Rightarrow> real \<Rightarrow> real \<Rightarrow> real \<Rightarrow> canvas option" where
  "draw_line canvas c0 r0 c1 r1 =
     (let ic0 = py_round c0; ir0 = py_round r0;
          ic1 = py_round c1; ir1 = py_round r1;
          dc = ic1 - ic0;
          dr = ir1 - ir0;
          steps = max \<bar>dc\<bar> \<bar>dr\<bar>
      in if steps = 0 then
           (if 0 \<le> ir0 \<and> ir0 < ROWS \<and> 0 \<le> ic0 \<and> ic0 < COLS
            then canvas_set canvas ir0 ic0 CHR ''+''
            else Some canvas)
         else
           map_option fst
             (fold_opt (line_step c0 r0 c1 r1 ic0 ir0 ic1 ir1 steps)
                [0 ..< nat (steps + 1)] (canvas, ic0, ir0)))"

subsection \<open>Rendering one frame\<close>

text \<open>The angle schedule (source lines 134 to 137).\<close>

definition frame_angles :: "int \<Rightarrow> real \<times> real \<times> real" where
  "frame_angles frame =
     (let t = 2.0 * pi * of_int frame / of_int NUM_FRAMES;
          ax = 0.6;
          ay = t + pi / 4;
          az = t * 0.35 + 0.3
      in (ax, ay, az))"

text \<open>Transform vertices (source lines 140 to 145).\<close>

definition transform_verts :: "real \<Rightarrow> real \<Rightarrow> real \<Rightarrow> vec3 list \<times> vec2 list" where
  "transform_verts ax ay az =
     fold (\<lambda>(vx, vy, vz) (verts_3d, verts_2d).
             (case rot (of_int vx * SCALE) (of_int vy * SCALE) (of_int vz * SCALE) ax ay az of
                (x, y, z) \<Rightarrow> (verts_3d @ [(x, y, z)], verts_2d @ [project x y z])))
       VERTS ([], [])"

text \<open>Visible edges by back-face culling (source lines 148 to 152).\<close>

definition visible_edges_of :: "vec3 list \<Rightarrow> edge set option" where
  "visible_edges_of verts_3d =
     fold_opt (\<lambda>(fi, face) visible_edges.
                 do {
                   v \<leftarrow> face_visible verts_3d face 10.0;
                   if v then do {
                     es \<leftarrow> py_get FACE_EDGES (int fi);
                     Some (visible_edges \<union> es)
                   } else Some visible_edges
                 })
       (enumerate 0 FACES) {}"

text \<open>The test of source line 159, negated: the edge is not skipped.\<close>

definition edge_drawn :: "edge set \<Rightarrow> edge \<Rightarrow> bool" where
  "edge_drawn visible_edges e =
     (case e of (i0, i1) \<Rightarrow> \<not> ((i0, i1) \<notin> visible_edges \<and> (i1, i0) \<notin> visible_edges))"

text \<open>Draw visible edges (source lines 158 to 163).\<close>

definition draw_edges :: "canvas \<Rightarrow> edge set \<Rightarrow> vec2 list \<Rightarrow> canvas option" where
  "draw_edges canvas visible_edges verts_2d =
     fold_opt (\<lambda>(i0, i1) canvas.
                 if \<not> edge_drawn visible_edges (i0, i1) then Some canvas
                 else do {
                   (c0, r0) \<leftarrow> py_get verts_2d i0;
                   (c1, r1) \<leftarrow> py_get verts_2d i1;
                   draw_line canvas c0 r0 c1 r1
                 })
       EDGES canvas"

text \<open>Draw vertices (source lines 166 to 169).\<close>

definition draw_vertex :: "vec2 \<Rightarrow> canvas \<Rightarrow> canvas option" where
  "draw_vertex v canvas =
     (case v of (sc, sr) \<Rightarrow>
        (let c = py_round sc; r = py_round sr
         in if 0 \<le> r \<and> r < ROWS \<and> 0 \<le> c \<and> c < COLS
            then canvas_set canvas r c CHR ''o''
            else Some canvas))"

definition draw_vertices :: "canvas \<Rightarrow> vec2 list \<Rightarrow> canvas option" where
  "draw_vertices canvas verts_2d = fold_opt draw_vertex verts_2d canvas"

text \<open>The body of \<^verbatim>\<open>_render_frame\<close> from line 139 on, for given angles.\<close>

definition render_with :: "real \<Rightarrow> real \<Rightarrow> real \<Rightarrow> string option" where
  "render_with ax ay az =
     (case transform_verts ax ay az of (verts_3d, verts_2d) \<Rightarrow>
        do {
          visible_edges \<leftarrow> visible_edges_of verts_3d;
          let canvas = replicate (nat ROWS) (replicate (nat COLS) CHR '' '');
          canvas \<leftarrow> draw_edges canvas visible_edges verts_2d;
          canvas \<leftarrow> draw_vertices canvas verts_2d;
          Some (join [CHR 0x0A] (map (join []) (map (map (\<lambda>ch. [ch])) canvas)))
        })"

definition render_frame :: "int \<Rightarrow> string option" where
  "render_frame frame = (case frame_angles frame of (ax, ay, az) \<Rightarrow> render_with ax ay az)"

subsection \<open>Driver\<close>

text \<open>
  The file system is a map from paths to file contents; \<open>root_dir\<close> (the source's \<^verbatim>\<open>root\<close>) is the output
  directory \<^verbatim>\<open>frames/default\<close> beside the script's parent directory. Creating the
  directory and printing the summary line are left out.
\<close>

definition frame_path :: "string \<Rightarrow> int \<Rightarrow> string" where
  "frame_path root_dir f = root_dir @ ''/'' @ ''frame_'' @ str_int f @ ''.txt''"

text \<open>\<^verbatim>\<open>path.write_text(text)\<close>: the file is created or overwritten.\<close>

definition write_text :: "string \<Rightarrow> string \<Rightarrow> (string \<rightharpoonup> string) \<Rightarrow> (string \<rightharpoonup> string)" where
  "write_text path text fs = fs(path \<mapsto> text)"

definition main :: "string \<Rightarrow> (string \<rightharpoonup> string) \<Rightarrow> (string \<rightharpoonup> string) option" where
  "main root_dir fs =
     fold_opt (\<lambda>f fs. do {
                 text \<leftarrow> render_frame (f - 1);
                 Some (write_text (frame_path root_dir f) text fs)
               })
       (map int [1 ..< nat (NUM_FRAMES + 1)]) fs"

section \<open>Notions of the specification\<close>

subsection \<open>Rotation matrices\<close>

type_synonym mat3 = "vec3 \<times> vec3 \<times> vec3"

definition dot :: "vec3 \<Rightarrow> vec3 \<Rightarrow> real" where
  "dot u v = (case u of (u0, u1, u2) \<Rightarrow> case v of (v0, v1, v2) \<Rightarrow> u0 * v0 + u1 * v1 + u2 * v2)"

definition mat_vec :: "mat3 \<Rightarrow> vec3 \<Rightarrow> vec3" where
  "mat_vec m v = (case m of (row0, row1, row2) \<Rightarrow> (dot row0 v, dot row1 v, dot row2 v))"

text \<open>The right-handed rotations by the angle \<open>a\<close> about the X, Y and Z axes.\<close>

definition Rx :: "real \<Rightarrow> mat3" where
  "Rx a = ((1, 0, 0), (0, cos a, - sin a), (0, sin a, cos a))"

definition Ry :: "real \<Rightarrow> mat3" where
  "Ry a = ((cos a, 0, sin a), (0, 1, 0), (- sin a, 0, cos a))"

definition Rz :: "real \<Rightarrow> mat3" where
  "Rz a = ((cos a, - sin a, 0), (sin a, cos a, 0), (0, 0, 1))"

subsection \<open>Normals and boundary edges\<close>

definition vsub :: "vec3 \<Rightarrow> vec3 \<Rightarrow> vec3" where
  "vsub u v = (case u of (u0, u1, u2) \<Rightarrow> case v of (v0, v1, v2) \<Rightarrow> (u0 - v0, u1 - v1, u2 - v2))"

definition cross :: "vec3 \<Rightarrow> vec3 \<Rightarrow> vec3" where
  "cross u v =
     (case u of (u0, u1, u2) \<Rightarrow> case v of (v0, v1, v2) \<Rightarrow>
        (u1 * v2 - u2 * v1, u2 * v0 - u0 * v2, u0 * v1 - u1 * v0))"

text \<open>The Z-component of the cross product of the two edge vectors that leave the first
  vertex of a face.\<close>

definition normal_z :: "vec3 list \<Rightarrow> face \<Rightarrow> real" where
  "normal_z verts face =
     (case face of (a, b, c, d) \<Rightarrow>
        snd (snd (cross (vsub (verts ! nat b) (verts ! nat a))
                        (vsub (verts ! nat c) (verts ! nat a)))))"

text \<open>An edge, as an unordered pair, joins two consecutive vertices of the quad.\<close>

definition boundary_edge :: "face \<Rightarrow> edge \<Rightarrow> bool" where
  "boundary_edge face e =
     (case face of (a, b, c, d) \<Rightarrow> case e of (i, j) \<Rightarrow>
        {i, j} \<in> {{a, b}, {b, c}, {c, d}, {d, a}})"

text \<open>The faces the culling loop classifies visible, and the edges the drawing loop does
  not skip.\<close>

definition visible_faces :: "vec3 list \<Rightarrow> face list" where
  "visible_faces verts_3d = filter (\<lambda>face. face_visible verts_3d face 10.0 = Some True) FACES"

definition drawn_edges :: "vec3 list \<Rightarrow> edge list option" where
  "drawn_edges verts_3d =
     (case visible_edges_of verts_3d of
        None \<Rightarrow> None
      | Some visible_edges \<Rightarrow> Some (filter (edge_drawn visible_edges) EDGES))"

text \<open>The cube's vertices for \<open>ax = ay = az = 0\<close>.\<close>

definition unrotated :: "vec3 list" where
  "unrotated = fst (transform_verts 0 0 0)"

text \<open>The union the culling loop accumulates over the six faces.\<close>

definition visible_union :: "vec3 list \<Rightarrow> edge set" where
  "visible_union vs =
     (if 0 < normal_z vs (0, 3, 2, 1) then {(0, 1), (1, 2), (2, 3), (3, 0)} else {}) \<union>
     (if 0 < normal_z vs (4, 5, 6, 7) then {(4, 5), (5, 6), (6, 7), (7, 4)} else {}) \<union>
     (if 0 < normal_z vs (0, 1, 5, 4) then {(0, 1), (1, 5), (5, 4), (0, 4)} else {}) \<union>
     (if 0 < normal_z vs (2, 3, 7, 6) then {(2, 3), (3, 7), (7, 6), (2, 6)} else {}) \<union>
     (if 0 < normal_z vs (0, 4, 7, 3) then {(0, 3), (3, 7), (7, 4), (0, 4)} else {}) \<union>
     (if 0 < normal_z vs (1, 2, 6, 5) then {(1, 2), (2, 6), (6, 5), (1, 5)} else {})"

subsection \<open>Canvas and line drawing\<close>

text \<open>A canvas of \<open>ROWS\<close> rows of \<open>COLS\<close> cells each, as \<^verbatim>\<open>_render_frame\<close> creates it.\<close>

definition wf_canvas :: "canvas \<Rightarrow> bool" where
  "wf_canvas cv \<longleftrightarrow> length cv = nat ROWS \<and> list_all (\<lambda>row. length row = nat COLS) cv"

definition blank :: canvas where
  "blank = replicate 17 (replicate 42 CHR '' '')"

text \<open>A grid position is a pair (column, row); it is in the grid when it lies in
  \<open>[0, COLS) \<times> [0, ROWS)\<close>.\<close>

definition in_grid :: "int \<times> int \<Rightarrow> bool" where
  "in_grid p = (case p of (c, r) \<Rightarrow> 0 \<le> r \<and> r < ROWS \<and> 0 \<le> c \<and> c < COLS)"

text \<open>Plotting a point: the cell at the point is overwritten; a point outside the grid
  is dropped.\<close>

definition plot :: "canvas \<Rightarrow> int \<times> int \<Rightarrow> char \<Rightarrow> canvas" where
  "plot cv p ch =
     (case p of (c, r) \<Rightarrow>
        if in_grid (c, r) then cv[nat r := (cv ! nat r)[nat c := ch]] else cv)"

text \<open>\<open>steps\<close>: the larger of the absolute column and row deltas of the rounded
  endpoints.\<close>

definition line_steps :: "real \<Rightarrow> real \<Rightarrow> real \<Rightarrow> real \<Rightarrow> int" where
  "line_steps c0 r0 c1 r1 = max \<bar>py_round c1 - py_round c0\<bar> \<bar>py_round r1 - py_round r0\<bar>"

text \<open>The \<open>i\<close>-th sample, interpolated between the unrounded endpoints.\<close>

definition sample :: "real \<Rightarrow> real \<Rightarrow> real \<Rightarrow> real \<Rightarrow> nat \<Rightarrow> int \<times> int" where
  "sample c0 r0 c1 r1 i =
     (py_round (c0 + (real i / of_int (line_steps c0 r0 c1 r1)) * (c1 - c0)),
      py_round (r0 + (real i / of_int (line_steps c0 r0 c1 r1)) * (r1 - r0)))"

text \<open>The local direction (column delta, row delta) at sample \<open>i\<close>: from the rounded
  start to the rounded end for \<open>i = 0\<close>, from the previous sample to this one otherwise.\<close>

definition local_dir :: "real \<Rightarrow> real \<Rightarrow> real \<Rightarrow> real \<Rightarrow> nat \<Rightarrow> int \<times> int" where
  "local_dir c0 r0 c1 r1 i =
     (if i = 0 then (py_round c1 - py_round c0, py_round r1 - py_round r0)
      else (fst (sample c0 r0 c1 r1 i) - fst (sample c0 r0 c1 r1 (i - 1)),
            snd (sample c0 r0 c1 r1 i) - snd (sample c0 r0 c1 r1 (i - 1))))"

text \<open>Row delta 0 gives \<open>-\<close>, otherwise column delta 0 gives \<open>|\<close>, otherwise equal
  signs give the backslash and opposite signs give \<open>/\<close>.\<close>

definition glyph_of :: "int \<times> int \<Rightarrow> char" where
  "glyph_of d =
     (case d of (sc, sr) \<Rightarrow>
        if sr = 0 then CHR ''-''
        else if sc = 0 then CHR ''|''
        else if sgn sc = sgn sr then CHR 0x5C
        else CHR ''/'')"

text \<open>The line drawer as the specification describes it.\<close>

definition line_spec :: "canvas \<Rightarrow> real \<Rightarrow> real \<Rightarrow> real \<Rightarrow> real \<Rightarrow> canvas" where
  "line_spec cv c0 r0 c1 r1 =
     (if line_steps c0 r0 c1 r1 = 0 then plot cv (py_round c0, py_round r0) CHR ''+''
      else fold (\<lambda>i cv. plot cv (sample c0 r0 c1 r1 i) (glyph_of (local_dir c0 r0 c1 r1 i)))
             [0 ..< nat (line_steps c0 r0 c1 r1) + 1] cv)"

text \<open>The rasterized points: the rounded position of a vertex marker, and the points a
  line plots (the \<open>+\<close> marker, or the samples \<open>0..steps\<close>).\<close>

definition round_pt :: "vec2 \<Rightarrow> int \<times> int" where
  "round_pt v = (case v of (sc, sr) \<Rightarrow> (py_round sc, py_round sr))"

definition line_points :: "real \<Rightarrow> real \<Rightarrow> real \<Rightarrow> real \<Rightarrow> (int \<times> int) list" where
  "line_points c0 r0 c1 r1 =
     (if line_steps c0 r0 c1 r1 = 0 then [(py_round c0, py_round r0)]
      else map (sample c0 r0 c1 r1) [0 ..< nat (line_steps c0 r0 c1 r1) + 1])"

subsection \<open>Frames as text\<close>

text \<open>The seven glyphs, canvases that hold nothing else, and the lines of a string
  (\<^verbatim>\<open>s.split(sep)\<close>).\<close>

definition glyphs :: "char set" where
  "glyphs = {CHR '' '', CHR ''-'', CHR ''|'', CHR 0x5C, CHR ''/'', CHR ''+'', CHR ''o''}"

definition glyph_canvas :: "canvas \<Rightarrow> bool" where
  "glyph_canvas cv \<longleftrightarrow> list_all (\<lambda>row. set row \<subseteq> glyphs) cv"

fun split_on :: "char \<Rightarrow> string \<Rightarrow> string list" where
  "split_on sep [] = [[]]"
| "split_on sep (x # xs) =
     (if x = sep then [] # split_on sep xs
      else (case split_on sep xs of [] \<Rightarrow> [[x]] | l # ls \<Rightarrow> (x # l) # ls))"

definition good_canvas :: "canvas \<Rightarrow> bool" where
  "good_canvas cv \<longleftrightarrow> wf_canvas cv \<and> glyph_canvas cv"

subsection \<open>Driver\<close>

text \<open>The values of \<open>f\<close> in the driver's loop, \<^verbatim>\<open>range(1, NUM_FRAMES + 1)\<close>.\<close>

definition frame_numbers :: "int list" where
  "frame_numbers = map int [1 ..< nat (NUM_FRAMES + 1)]"

subsection \<open>The draw loop and the frame\<close>

text \<open>The cube's eight vertices, scaled by \<open>SCALE\<close> and rotated by \<open>rot\<close> with the given
  angles; the edges that bound at least one visible face; the line of one edge between its
  projected endpoints; and the canvas of a frame: the lines of those edges in the order of
  \<open>EDGES\<close> on a blank canvas, then an \<open>o\<close> at every projected vertex.\<close>

definition rotated_cube :: "real \<Rightarrow> real \<Rightarrow> real \<Rightarrow> vec3 list" where
  "rotated_cube ax ay az =
     map (\<lambda>(vx, vy, vz). rot (of_int vx * SCALE) (of_int vy * SCALE) (of_int vz * SCALE) ax ay az)
       VERTS"

definition bounds_visible_face :: "vec3 list \<Rightarrow> edge \<Rightarrow> bool" where
  "bounds_visible_face verts_3d e =
     list_ex (\<lambda>face. face_visible verts_3d face 10.0 = Some True \<and> boundary_edge face e) FACES"

definition edge_line :: "vec2 list \<Rightarrow> edge \<Rightarrow> canvas \<Rightarrow> canvas" where
  "edge_line verts_2d e cv =
     (case e of (i0, i1) \<Rightarrow>
        case verts_2d ! nat i0 of (c0, r0) \<Rightarrow>
          case verts_2d ! nat i1 of (c1, r1) \<Rightarrow> line_spec cv c0 r0 c1 r1)"

definition edge_lines :: "canvas \<Rightarrow> vec2 list \<Rightarrow> edge list \<Rightarrow> canvas" where
  "edge_lines cv verts_2d es = fold (edge_line verts_2d) es cv"

definition frame_canvas :: "vec3 list \<Rightarrow> canvas" where
  "frame_canvas verts_3d =
     (let verts_2d = map (\<lambda>(x, y, z). project x y z) verts_3d;
          lines = edge_lines blank verts_2d (filter (bounds_visible_face verts_3d) EDGES)
      in fold (\<lambda>v cv. plot cv (round_pt v) CHR ''o'') verts_2d lines)"

section \<open>Rotation\<close>

text \<open>
  C4. For every point and angles \<open>(ax, ay, az)\<close>, \<open>rot\<close> returns the point rotated by
  \<open>ax\<close> about X, then by \<open>ay\<close> about Y, then by \<open>az\<close> about Z, each step the standard
  right-handed rotation: the result is the product with the matrices \<open>Rx\<close>, \<open>Ry\<close>, \<open>Rz\<close>
  applied in that sequence. The order matters: for the point \<open>(1, 2, 3)\<close> and three
  quarter turns, each of the five other orders gives a different point.
\<close>

theorem rot_is_x_then_y_then_z:
  "rot x y z ax ay az = mat_vec (Rz az) (mat_vec (Ry ay) (mat_vec (Rx ax) (x, y, z)))
   \<and> rot 1 2 3 (pi / 2) (pi / 2) (pi / 2) = (3, 2, -1)
   \<and> rot 1 2 3 (pi / 2) (pi / 2) (pi / 2)
       \<noteq> mat_vec (Ry (pi / 2)) (mat_vec (Rz (pi / 2)) (mat_vec (Rx (pi / 2)) (1, 2, 3)))
   \<and> rot 1 2 3 (pi / 2) (pi / 2) (pi / 2)
       \<noteq> mat_vec (Rz (pi / 2)) (mat_vec (Rx (pi / 2)) (mat_vec (Ry (pi / 2)) (1, 2, 3)))
   \<and> rot 1 2 3 (pi / 2) (pi / 2) (pi / 2)
       \<noteq> mat_vec (Rx (pi / 2)) (mat_vec (Rz (pi / 2)) (mat_vec (Ry (pi / 2)) (1, 2, 3)))
   \<and> rot 1 2 3 (pi / 2) (pi / 2) (pi / 2)
       \<noteq> mat_vec (Ry (pi / 2)) (mat_vec (Rx (pi / 2)) (mat_vec (Rz (pi / 2)) (1, 2, 3)))
   \<and> rot 1 2 3 (pi / 2) (pi / 2) (pi / 2)
       \<noteq> mat_vec (Rx (pi / 2)) (mat_vec (Ry (pi / 2)) (mat_vec (Rz (pi / 2)) (1, 2, 3)))"
proof -
  have general: "rot x y z ax ay az
      = mat_vec (Rz az) (mat_vec (Ry ay) (mat_vec (Rx ax) (x, y, z)))"
    by (simp add: rot_def mat_vec_def dot_def Rx_def Ry_def Rz_def Let_def algebra_simps)
  have quarter: "rot 1 2 3 (pi / 2) (pi / 2) (pi / 2) = (3, 2, -1)"
    by (simp add: rot_def)
  show ?thesis
    unfolding quarter
    by (simp add: general mat_vec_def dot_def Rx_def Ry_def Rz_def)
qed

section \<open>Visibility culling\<close>

lemma py_get_nonneg: "0 \<le> i \<Longrightarrow> i < int (length xs) \<Longrightarrow> py_get xs i = Some (xs ! nat i)"
  by (simp add: py_get_def py_norm_def)

lemma face_visible_normal:
  assumes "0 \<le> a" "a < int (length vs)" "0 \<le> b" "b < int (length vs)"
          "0 \<le> c" "c < int (length vs)"
  shows "face_visible vs (a, b, c, d) cz = Some (0 < normal_z vs (a, b, c, d))"
  using assms
  by (simp add: face_visible_def py_get_nonneg normal_z_def cross_def vsub_def
        split: prod.splits)

lemma visible_edges_of_eq:
  assumes "length vs = 8"
  shows "visible_edges_of vs = Some (visible_union vs)"
  using assms
  by (simp add: visible_edges_of_def FACES_def FACE_EDGES_def enumerate_eq_zip upt_rec
        face_visible_normal py_get_def py_norm_def visible_union_def Un_assoc)

lemma boundary_edge_simp:
  "boundary_edge (a, b, c, d) (i, j) \<longleftrightarrow>
     (i = a \<and> j = b) \<or> (i = b \<and> j = a) \<or> (i = b \<and> j = c) \<or> (i = c \<and> j = b) \<or>
     (i = c \<and> j = d) \<or> (i = d \<and> j = c) \<or> (i = d \<and> j = a) \<or> (i = a \<and> j = d)"
  by (auto simp: boundary_edge_def doubleton_eq_iff)

lemma drawn_iff_boundary:
  assumes "length vs = 8" "e \<in> set EDGES"
  shows "edge_drawn (visible_union vs) e \<longleftrightarrow>
         (\<exists>face \<in> set FACES. face_visible vs face 10 = Some True \<and> boundary_edge face e)"
  using assms
  apply (simp add: FACES_def face_visible_normal)
  apply (simp add: EDGES_def)
  apply (elim disjE)
  apply (simp_all add: boundary_edge_simp edge_drawn_def visible_union_def)
  done

lemma unrotated_eq: "unrotated =
   [(-4.2, -4.2, -4.2), (4.2, -4.2, -4.2), (4.2, 4.2, -4.2), (-4.2, 4.2, -4.2),
    (-4.2, -4.2, 4.2), (4.2, -4.2, 4.2), (4.2, 4.2, 4.2), (-4.2, 4.2, 4.2)]"
  by (simp add: unrotated_def transform_verts_def VERTS_def rot_def SCALE_def)

lemma unrotated_faces: "visible_faces unrotated = [(4, 5, 6, 7)]"
  by (simp add: visible_faces_def unrotated_eq FACES_def face_visible_def py_get_def py_norm_def)

lemma unrotated_visible_edges:
  "visible_edges_of unrotated = Some {(4, 5), (5, 6), (6, 7), (7, 4)}"
  by (simp add: visible_edges_of_def unrotated_eq FACES_def FACE_EDGES_def enumerate_eq_zip
        face_visible_def py_get_def py_norm_def upt_rec)

lemma unrotated_edges: "drawn_edges unrotated = Some [(4, 5), (5, 6), (6, 7), (7, 4)]"
  by (simp add: drawn_edges_def unrotated_visible_edges) (simp add: EDGES_def edge_drawn_def)

text \<open>
  C1 as stated: with zero rotation (\<open>ax = ay = az = 0\<close>, the vertices only scaled by
  \<open>SCALE\<close>) exactly 3 of the 6 faces are classified visible and exactly 9 of the 12
  edges are selected for drawing. The code classifies one face visible and selects four
  edges: the normals of the four side faces have Z-component zero.
\<close>

theorem unrotated_not_three_faces_nine_edges:
  "\<not> (length (visible_faces unrotated) = 3
      \<and> map_option length (drawn_edges unrotated) = Some 9)"
  by (simp add: unrotated_faces)

text \<open>
  C1, amended. With zero rotation exactly 1 of the 6 faces, the front face
  \<open>(4, 5, 6, 7)\<close>, is classified visible, and exactly 4 of the 12 edges, the edges of
  that face, are selected for drawing.
\<close>

theorem unrotated_one_face_four_edges:
  "length FACES = 6 \<and> length EDGES = 12
   \<and> unrotated =
       [(-4.2, -4.2, -4.2), (4.2, -4.2, -4.2), (4.2, 4.2, -4.2), (-4.2, 4.2, -4.2),
        (-4.2, -4.2, 4.2), (4.2, -4.2, 4.2), (4.2, 4.2, 4.2), (-4.2, 4.2, 4.2)]
   \<and> visible_faces unrotated = [(4, 5, 6, 7)]
   \<and> length (visible_faces unrotated) = 1
   \<and> drawn_edges unrotated = Some [(4, 5), (5, 6), (6, 7), (7, 4)]
   \<and> map_option length (drawn_edges unrotated) = Some 4"
proof -
  have "length FACES = 6" and "length EDGES = 12"
    by (simp_all add: FACES_def EDGES_def)
  then show ?thesis
    using unrotated_eq by (simp add: unrotated_faces unrotated_edges)
qed

section \<open>Projection\<close>

text \<open>
  C9. For every rotated point \<open>(x, y, z)\<close> the projection returns exactly
  \<open>(COLS/2 + x * ASPECT, ROWS/2 + y)\<close> as (column, row), and the z-coordinate has no
  effect on the result.
\<close>

theorem project_orthographic:
  "project x y z = (of_int COLS / 2 + x * ASPECT, of_int ROWS / 2 + y)
   \<and> project x y z = (21 + x * 2.1, 8.5 + y)
   \<and> project x y z = project x y z'"
  by (simp add: project_def COLS_def ROWS_def ASPECT_def)

section \<open>Line drawing\<close>

lemma canvas_set_in_grid:
  assumes "wf_canvas cv" "in_grid (c, r)"
  shows "canvas_set cv r c ch = Some (plot cv (c, r) ch)"
  using assms
  by (auto simp: canvas_set_def py_norm_def wf_canvas_def in_grid_def plot_def list_all_length)

lemma wf_blank: "wf_canvas blank"
  by (simp add: wf_canvas_def blank_def ROWS_def COLS_def list_all_iff)

lemma plot_wf: "wf_canvas cv \<Longrightarrow> wf_canvas (plot cv p ch)"
proof (cases p)
  case (Pair c r)
  assume wf: "wf_canvas cv"
  have "length ((cv[nat r := (cv ! nat r)[nat c := ch]]) ! n) = nat COLS"
    if "n < nat ROWS" for n
    using that wf by (cases "n = nat r") (simp_all add: wf_canvas_def list_all_length)
  then show ?thesis
    using wf Pair by (simp add: plot_def wf_canvas_def list_all_length)
qed

lemma pick_char_glyph: "pick_char sc sr = glyph_of (sc, sr)"
  by (auto simp: pick_char_def glyph_of_def sgn_if)

lemma line_step_plot:
  assumes "wf_canvas cv" "steps = line_steps c0 r0 c1 r1"
  shows "line_step c0 r0 c1 r1 ic0 ir0 ic1 ir1 steps i (cv, p)
         = Some (plot cv (sample c0 r0 c1 r1 i)
                   (glyph_of (if i = 0 then (ic1 - ic0, ir1 - ir0)
                              else (fst (sample c0 r0 c1 r1 i) - fst p,
                                    snd (sample c0 r0 c1 r1 i) - snd p))),
                 sample c0 r0 c1 r1 i)"
proof -
  define c where "c = py_round (c0 + real i / of_int steps * (c1 - c0))"
  define r where "r = py_round (r0 + real i / of_int steps * (r1 - r0))"
  define d where "d = (if i = 0 then (ic1 - ic0, ir1 - ir0) else (c - fst p, r - snd p))"
  have smp: "sample c0 r0 c1 r1 i = (c, r)"
    by (simp add: sample_def c_def r_def assms(2))
  have step: "line_step c0 r0 c1 r1 ic0 ir0 ic1 ir1 steps i (cv, p)
        = (case (if in_grid (c, r) then canvas_set cv r c (pick_char (fst d) (snd d)) else Some cv) of
             None \<Rightarrow> None | Some cv' \<Rightarrow> Some (cv', c, r))"
    by (cases p)
       (simp add: line_step_def Let_def c_def r_def d_def in_grid_def split: option.splits)
  have "(if in_grid (c, r) then canvas_set cv r c (pick_char (fst d) (snd d)) else Some cv)
        = Some (plot cv (c, r) (glyph_of d))"
  proof (cases "in_grid (c, r)")
    case True
    then show ?thesis
      using canvas_set_in_grid [OF assms(1) True] by (simp add: pick_char_glyph)
  next
    case False
    then show ?thesis by (simp add: plot_def)
  qed
  then show ?thesis
    unfolding step smp by (simp add: d_def)
qed

lemma fold_opt_append:
  "fold_opt f (xs @ ys) s = (case fold_opt f xs s of None \<Rightarrow> None | Some s' \<Rightarrow> fold_opt f ys s')"
  by (induction xs arbitrary: s) (auto split: option.splits)

lemma fold_plot_wf:
  "wf_canvas cv \<Longrightarrow> wf_canvas (fold (\<lambda>i cv. plot cv (p i) (g i)) xs cv)"
  by (induction xs arbitrary: cv) (auto simp: plot_wf)

lemma line_loop:
  assumes "wf_canvas cv"
  shows "fold_opt (line_step c0 r0 c1 r1 (py_round c0) (py_round r0) (py_round c1) (py_round r1)
                     (line_steps c0 r0 c1 r1))
           [0 ..< Suc k] (cv, py_round c0, py_round r0)
         = Some (fold (\<lambda>i cv. plot cv (sample c0 r0 c1 r1 i) (glyph_of (local_dir c0 r0 c1 r1 i)))
                   [0 ..< Suc k] cv,
                 sample c0 r0 c1 r1 k)"
proof (induction k)
  case 0
  show ?case
    using line_step_plot [OF assms refl, of c0 r0 c1 r1 _ _ _ _ 0 "(py_round c0, py_round r0)"]
    by (simp add: local_dir_def)
next
  case (Suc k)
  define f where "f = line_step c0 r0 c1 r1 (py_round c0) (py_round r0) (py_round c1) (py_round r1)
                     (line_steps c0 r0 c1 r1)"
  define g where "g = (\<lambda>i cv. plot cv (sample c0 r0 c1 r1 i) (glyph_of (local_dir c0 r0 c1 r1 i)))"
  define cvk where "cvk = fold g [0 ..< Suc k] cv"
  have wf: "wf_canvas cvk"
    unfolding cvk_def g_def using assms by (rule fold_plot_wf)
  have ih: "fold_opt f [0 ..< Suc k] (cv, py_round c0, py_round r0)
            = Some (cvk, sample c0 r0 c1 r1 k)"
    using Suc.IH by (simp only: f_def g_def cvk_def)
  have split: "[0 ..< Suc (Suc k)] = [0 ..< Suc k] @ [Suc k]"
    by simp
  have last: "f (Suc k) (cvk, sample c0 r0 c1 r1 k)
              = Some (g (Suc k) cvk, sample c0 r0 c1 r1 (Suc k))"
    unfolding f_def g_def
    using line_step_plot [OF wf refl, of c0 r0 c1 r1 _ _ _ _ "Suc k" "sample c0 r0 c1 r1 k"]
    by (simp add: local_dir_def)
  have "fold_opt f [0 ..< Suc (Suc k)] (cv, py_round c0, py_round r0)
        = fold_opt f [Suc k] (cvk, sample c0 r0 c1 r1 k)"
    unfolding split fold_opt_append ih by simp
  also have "\<dots> = Some (g (Suc k) cvk, sample c0 r0 c1 r1 (Suc k))"
    by (simp add: last)
  also have "g (Suc k) cvk = fold g [0 ..< Suc (Suc k)] cv"
    unfolding split cvk_def by simp
  finally show ?case
    by (simp only: f_def g_def)
qed

lemma draw_line_unfold:
  "draw_line cv c0 r0 c1 r1 =
     (if line_steps c0 r0 c1 r1 = 0 then
        (if in_grid (py_round c0, py_round r0)
         then canvas_set cv (py_round r0) (py_round c0) CHR ''+'' else Some cv)
      else map_option fst
             (fold_opt (line_step c0 r0 c1 r1 (py_round c0) (py_round r0) (py_round c1) (py_round r1)
                          (line_steps c0 r0 c1 r1))
                [0 ..< Suc (nat (line_steps c0 r0 c1 r1))] (cv, py_round c0, py_round r0)))"
proof -
  have "0 \<le> line_steps c0 r0 c1 r1"
    by (simp add: line_steps_def)
  then have "nat (line_steps c0 r0 c1 r1 + 1) = Suc (nat (line_steps c0 r0 c1 r1))"
    by simp
  then show ?thesis
    unfolding draw_line_def Let_def line_steps_def in_grid_def by simp
qed

lemma draw_line_spec:
  assumes "wf_canvas cv"
  shows "draw_line cv c0 r0 c1 r1 = Some (line_spec cv c0 r0 c1 r1)"
proof (cases "line_steps c0 r0 c1 r1 = 0")
  case True
  show ?thesis
  proof (cases "in_grid (py_round c0, py_round r0)")
    case g: True
    show ?thesis
      unfolding draw_line_unfold line_spec_def
      using True g canvas_set_in_grid [OF assms g] by simp
  next
    case g: False
    show ?thesis
      unfolding draw_line_unfold line_spec_def
      using True g by (simp add: plot_def)
  qed
next
  case False
  have up: "[0 ..< nat (line_steps c0 r0 c1 r1) + 1] = [0 ..< Suc (nat (line_steps c0 r0 c1 r1))]"
    by simp
  show ?thesis
    unfolding draw_line_unfold line_spec_def up
    using False by (simp only: line_loop [OF assms] if_False option.map fst_conv)
qed

lemma line_spec_marker_example: "line_spec blank 3 2 3.2 2.1 = blank[2 := (blank ! 2)[3 := CHR ''+'']]"
proof -
  have "line_steps 3 2 3.2 2.1 = 0"
    by (simp add: line_steps_def py_round_def)
  moreover have "py_round 3 = 3" "py_round 2 = 2"
    by (simp_all add: py_round_def)
  ultimately show ?thesis
    by (simp add: line_spec_def plot_def in_grid_def ROWS_def COLS_def)
qed

lemma line_spec_diagonal_example: "line_spec blank 1 1 3 2
           = blank[1 := (blank ! 1)[1 := CHR 0x5C], 2 := (blank ! 2)[2 := CHR 0x5C, 3 := CHR ''-'']]"
proof -
  have st: "line_steps 1 1 3 2 = 2"
    by (simp add: line_steps_def py_round_def)
  have smp: "sample 1 1 3 2 0 = (1, 1)" "sample 1 1 3 2 (Suc 0) = (2, 2)" "sample 1 1 3 2 2 = (3, 2)"
    unfolding sample_def st by (simp_all add: py_round_def)
  have dir: "local_dir 1 1 3 2 0 = (2, 1)" "local_dir 1 1 3 2 (Suc 0) = (1, 1)" "local_dir 1 1 3 2 2 = (1, 0)"
    by (simp_all add: local_dir_def smp py_round_def)
  have l: "[0 ..< nat 2 + 1] = [0, 1, 2]"
    by (simp add: upt_rec)
  show ?thesis
    unfolding line_spec_def st l
    by (simp add: smp dir glyph_of_def plot_def in_grid_def ROWS_def COLS_def blank_def)
qed

text \<open>
  C3. For an edge with projected endpoints \<open>(c0, r0)\<close> and \<open>(c1, r1)\<close>, the line drawer
  rounds both endpoints and sets \<open>steps\<close> to the larger absolute rounded delta; for
  \<open>steps = 0\<close> it plots a single \<open>+\<close> at that cell and stops; otherwise for each
  \<open>i\<close> in \<open>0..steps\<close> it plots the sample interpolated from the unrounded endpoints, with
  the glyph of the local direction (rounded start to rounded end for \<open>i = 0\<close>, previous
  sample to current sample for \<open>i > 0\<close>), each write overwriting the cell. On a canvas of
  \<open>ROWS\<close> by \<open>COLS\<close> cells the source's loop computes exactly \<open>line_spec\<close>.
\<close>

theorem draw_line_refines_spec:
  assumes "wf_canvas canvas"
  shows "draw_line canvas c0 r0 c1 r1 = Some (line_spec canvas c0 r0 c1 r1)"
  using assms by (rule draw_line_spec)

theorem draw_line_refines_spec_witness:
  "wf_canvas blank
   \<and> draw_line blank 1 1 3 2
       = Some (blank[1 := (blank ! 1)[1 := CHR 0x5C],
                     2 := (blank ! 2)[2 := CHR 0x5C, 3 := CHR ''-'']])
   \<and> draw_line blank 3 2 3.2 2.1 = Some (blank[2 := (blank ! 2)[3 := CHR ''+'']])"
proof -
  have wf: "wf_canvas blank"
    by (rule wf_blank)
  show ?thesis
    using wf draw_line_refines_spec [OF wf, of 1 1 3 2]
      draw_line_refines_spec [OF wf, of 3 2 "3.2" "2.1"]
    by (simp only: line_spec_marker_example line_spec_diagonal_example simp_thms)
qed

section \<open>Points outside the grid\<close>

lemma plot_same:
  assumes "p \<noteq> (int c, int r)"
  shows "plot cv p ch ! r ! c = cv ! r ! c"
proof (cases p)
  case (Pair pc pr)
  show ?thesis
  proof (cases "in_grid (pc, pr)")
    case False
    then show ?thesis using Pair by (simp add: plot_def)
  next
    case True
    then have nn: "0 \<le> pc" "0 \<le> pr" by (simp_all add: in_grid_def)
    show ?thesis
    proof (cases "r = nat pr")
      case False
      then show ?thesis using Pair True by (simp add: plot_def)
    next
      case r: True
      then have "c \<noteq> nat pc" using assms Pair nn by auto
      then show ?thesis
        using Pair True r
        by (cases "nat pr < length cv") (simp_all add: plot_def list_update_beyond)
    qed
  qed
qed

lemma fold_plot_same:
  assumes "(int c, int r) \<notin> set (map p xs)"
  shows "fold (\<lambda>x cv. plot cv (p x) (g x)) xs cv ! r ! c = cv ! r ! c"
  using assms
proof (induction xs arbitrary: cv)
  case Nil
  show ?case by simp
next
  case (Cons x xs)
  from Cons.prems have "p x \<noteq> (int c, int r)" and "(int c, int r) \<notin> set (map p xs)"
    by auto
  then show ?case
    by (simp add: Cons.IH plot_same)
qed

lemma line_spec_same:
  assumes "(int c, int r) \<notin> set (line_points c0 r0 c1 r1)"
  shows "line_spec cv c0 r0 c1 r1 ! r ! c = cv ! r ! c"
proof (cases "line_steps c0 r0 c1 r1 = 0")
  case True
  then have "(py_round c0, py_round r0) \<noteq> (int c, int r)"
    using assms by (auto simp: line_points_def)
  then show ?thesis
    using True by (simp add: line_spec_def plot_same)
next
  case False
  have pts: "line_points c0 r0 c1 r1
             = map (sample c0 r0 c1 r1) [0 ..< nat (line_steps c0 r0 c1 r1) + 1]"
    using False by (simp only: line_points_def if_False)
  have ls: "line_spec cv c0 r0 c1 r1
            = fold (\<lambda>i cv. plot cv (sample c0 r0 c1 r1 i) (glyph_of (local_dir c0 r0 c1 r1 i)))
                [0 ..< nat (line_steps c0 r0 c1 r1) + 1] cv"
    using False by (simp only: line_spec_def if_False)
  show ?thesis
    unfolding ls using assms unfolding pts by (rule fold_plot_same)
qed

lemma line_spec_wf: "wf_canvas cv \<Longrightarrow> wf_canvas (line_spec cv c0 r0 c1 r1)"
  by (simp add: line_spec_def plot_wf fold_plot_wf)

lemma draw_vertex_unfold:
  "draw_vertex v cv =
     (if in_grid (round_pt v) then canvas_set cv (snd (round_pt v)) (fst (round_pt v)) CHR ''o''
      else Some cv)"
  by (cases v) (simp add: draw_vertex_def round_pt_def in_grid_def Let_def)

lemma draw_vertex_plot:
  assumes "wf_canvas cv"
  shows "draw_vertex v cv = Some (plot cv (round_pt v) CHR ''o'')"
proof (cases "in_grid (round_pt v)")
  case True
  then show ?thesis
    using canvas_set_in_grid [OF assms, of "fst (round_pt v)" "snd (round_pt v)"]
    by (simp add: draw_vertex_unfold)
next
  case False
  then show ?thesis
    by (cases "round_pt v") (simp add: draw_vertex_unfold plot_def)
qed

lemma draw_vertices_plot:
  assumes "wf_canvas cv"
  shows "draw_vertices cv vs = Some (fold (\<lambda>v cv. plot cv (round_pt v) CHR ''o'') vs cv)"
  unfolding draw_vertices_def using assms
  by (induction vs arbitrary: cv) (simp_all add: draw_vertex_plot plot_wf)

lemma line_step_skip:
  assumes "\<not> in_grid (sample c0 r0 c1 r1 i)"
  shows "line_step c0 r0 c1 r1 ic0 ir0 ic1 ir1 (line_steps c0 r0 c1 r1) i (cv, p)
         = Some (cv, sample c0 r0 c1 r1 i)"
proof -
  define c where "c = py_round (c0 + real i / of_int (line_steps c0 r0 c1 r1) * (c1 - c0))"
  define r where "r = py_round (r0 + real i / of_int (line_steps c0 r0 c1 r1) * (r1 - r0))"
  have smp: "sample c0 r0 c1 r1 i = (c, r)"
    by (simp add: sample_def c_def r_def)
  have "line_step c0 r0 c1 r1 ic0 ir0 ic1 ir1 (line_steps c0 r0 c1 r1) i (cv, p)
        = (if in_grid (c, r) then line_step c0 r0 c1 r1 ic0 ir0 ic1 ir1 (line_steps c0 r0 c1 r1) i (cv, p)
           else Some (cv, c, r))"
    by (cases p) (simp add: line_step_def Let_def c_def r_def in_grid_def)
  then show ?thesis
    using assms unfolding smp by simp
qed

lemma draw_line_skip:
  assumes "line_steps c0 r0 c1 r1 = 0" "\<not> in_grid (py_round c0, py_round r0)"
  shows "draw_line cv c0 r0 c1 r1 = Some cv"
  unfolding draw_line_unfold using assms by simp

lemma draw_vertex_skip:
  assumes "\<not> in_grid (py_round sc, py_round sr)"
  shows "draw_vertex (sc, sr) cv = Some cv"
  using assms by (simp add: draw_vertex_unfold round_pt_def)

text \<open>
  C8. Every rasterized point (a line sample, the \<open>+\<close> marker or a vertex marker) whose
  rounded coordinates fall outside \<open>[0, ROWS) \<times> [0, COLS)\<close> is silently skipped: the
  canvas is returned unchanged and no exception is raised. On a \<open>ROWS\<close> by \<open>COLS\<close>
  canvas a whole line and the whole vertex loop never raise, and a cell they change is
  exactly the position of some rasterized point, so no point reaches another cell by
  wrapping around.
\<close>

theorem out_of_grid_points_skipped:
  assumes "wf_canvas canvas"
  shows "(\<not> in_grid (sample c0 r0 c1 r1 i) \<longrightarrow>
            line_step c0 r0 c1 r1 ic0 ir0 ic1 ir1 (line_steps c0 r0 c1 r1) i (canvas, p)
            = Some (canvas, sample c0 r0 c1 r1 i))
         \<and> (line_steps c0 r0 c1 r1 = 0 \<and> \<not> in_grid (py_round c0, py_round r0) \<longrightarrow>
              draw_line canvas c0 r0 c1 r1 = Some canvas)
         \<and> (\<not> in_grid (py_round sc, py_round sr) \<longrightarrow> draw_vertex (sc, sr) canvas = Some canvas)
         \<and> (\<exists>canvas'. draw_line canvas c0 r0 c1 r1 = Some canvas' \<and> wf_canvas canvas'
              \<and> (\<forall>r c. canvas' ! r ! c \<noteq> canvas ! r ! c \<longrightarrow>
                    (int c, int r) \<in> set (line_points c0 r0 c1 r1)))
         \<and> (\<exists>canvas'. draw_vertices canvas verts_2d = Some canvas' \<and> wf_canvas canvas'
              \<and> (\<forall>r c. canvas' ! r ! c \<noteq> canvas ! r ! c \<longrightarrow>
                    (int c, int r) \<in> set (map round_pt verts_2d)))"
proof (intro conjI)
  show "\<not> in_grid (sample c0 r0 c1 r1 i) \<longrightarrow>
            line_step c0 r0 c1 r1 ic0 ir0 ic1 ir1 (line_steps c0 r0 c1 r1) i (canvas, p)
            = Some (canvas, sample c0 r0 c1 r1 i)"
    by (simp add: line_step_skip)
  show "line_steps c0 r0 c1 r1 = 0 \<and> \<not> in_grid (py_round c0, py_round r0) \<longrightarrow>
              draw_line canvas c0 r0 c1 r1 = Some canvas"
    by (simp add: draw_line_skip)
  show "\<not> in_grid (py_round sc, py_round sr) \<longrightarrow> draw_vertex (sc, sr) canvas = Some canvas"
    by (simp add: draw_vertex_skip)
  show "\<exists>canvas'. draw_line canvas c0 r0 c1 r1 = Some canvas' \<and> wf_canvas canvas'
              \<and> (\<forall>r c. canvas' ! r ! c \<noteq> canvas ! r ! c \<longrightarrow>
                    (int c, int r) \<in> set (line_points c0 r0 c1 r1))"
    using assms draw_line_spec [OF assms] line_spec_wf [OF assms] line_spec_same
    by blast
  have "\<forall>r c. fold (\<lambda>v cv. plot cv (round_pt v) CHR ''o'') verts_2d canvas ! r ! c \<noteq> canvas ! r ! c
          \<longrightarrow> (int c, int r) \<in> set (map round_pt verts_2d)"
    using fold_plot_same [of _ _ round_pt verts_2d "\<lambda>_. CHR ''o''" canvas] by blast
  then show "\<exists>canvas'. draw_vertices canvas verts_2d = Some canvas' \<and> wf_canvas canvas'
              \<and> (\<forall>r c. canvas' ! r ! c \<noteq> canvas ! r ! c \<longrightarrow>
                    (int c, int r) \<in> set (map round_pt verts_2d))"
    using draw_vertices_plot [OF assms] fold_plot_wf [OF assms, of round_pt "\<lambda>_. CHR ''o''"]
    by simp
qed

theorem out_of_grid_points_skipped_witness:
  "wf_canvas blank
   \<and> sample 40 1 47 4 7 = (47, 4)
   \<and> line_step 40 1 47 4 40 1 47 4 7 7 (blank, (46, 4)) = Some (blank, (47, 4))
   \<and> draw_line blank (-3) (-2) (-3.2) (-2.1) = Some blank
   \<and> draw_vertex (-2, 50) blank = Some blank
   \<and> draw_vertices blank [(43, 16)] = Some blank"
proof -
  have smp: "sample 40 1 47 4 7 = (47, 4)" and st: "line_steps 40 1 47 4 = 7"
    by (simp_all add: sample_def py_round_def line_steps_def)
  have out: "\<not> in_grid (47, 4)" "\<not> in_grid (-3, -2)" "\<not> in_grid (-2, 50)"
    by (simp_all add: in_grid_def ROWS_def COLS_def)
  have rnd: "py_round (-3) = -3" "py_round (-2) = -2" "py_round 50 = 50"
    by (simp_all add: py_round_def)
  have z: "line_steps (-3) (-2) (-3.2) (-2.1) = 0"
    by (simp add: line_steps_def py_round_def)
  have v: "draw_vertices blank [(43, 16)] = Some blank"
    by (simp add: draw_vertices_def draw_vertex_def py_round_def ROWS_def COLS_def)
  from out_of_grid_points_skipped [OF wf_blank, of 40 1 47 4 7 40 1 47 4 "(46, 4)" "-2" 50 "[]"]
  have "line_step 40 1 47 4 40 1 47 4 7 7 (blank, (46, 4)) = Some (blank, (47, 4))"
    and "draw_vertex (-2, 50) blank = Some blank"
    using smp st out rnd by simp_all
  moreover
  from out_of_grid_points_skipped [OF wf_blank, of "-3" "-2" "-3.2" "-2.1" 0 "-3" "-2" "-3" "-2" "(-3, -2)" 43 16 "[]"]
  have "draw_line blank (-3) (-2) (-3.2) (-2.1) = Some blank"
    using z out rnd by simp
  ultimately show ?thesis
    using wf_blank smp v by simp
qed

section \<open>Shape and alphabet of a frame\<close>

lemma glyph_of_in: "glyph_of d \<in> glyphs"
  by (cases d) (simp add: glyph_of_def glyphs_def)

lemma plot_glyph:
  assumes "glyph_canvas cv" "ch \<in> glyphs"
  shows "glyph_canvas (plot cv p ch)"
proof (cases p)
  case (Pair c r)
  have "set ((cv[nat r := (cv ! nat r)[nat c := ch]]) ! n) \<subseteq> glyphs" if "n < length cv" for n
  proof (cases "n = nat r")
    case True
    have "set ((cv ! n)[nat c := ch]) \<subseteq> insert ch (set (cv ! n))"
      by (rule set_update_subset_insert)
    also have "\<dots> \<subseteq> glyphs"
      using assms that by (simp add: glyph_canvas_def list_all_length)
    finally show ?thesis
      using True that by simp
  next
    case False
    then show ?thesis
      using assms that by (simp add: glyph_canvas_def list_all_length)
  qed
  then show ?thesis
    using assms Pair by (simp add: plot_def glyph_canvas_def list_all_length)
qed

lemma plot_good: "good_canvas cv \<Longrightarrow> ch \<in> glyphs \<Longrightarrow> good_canvas (plot cv p ch)"
  by (simp add: good_canvas_def plot_wf plot_glyph)

lemma fold_plot_good:
  assumes "good_canvas cv" "\<And>x. g x \<in> glyphs"
  shows "good_canvas (fold (\<lambda>x cv. plot cv (p x) (g x)) xs cv)"
  using assms(1) by (induction xs arbitrary: cv) (simp_all add: plot_good assms(2))

lemma line_spec_good:
  assumes "good_canvas cv"
  shows "good_canvas (line_spec cv c0 r0 c1 r1)"
proof (cases "line_steps c0 r0 c1 r1 = 0")
  case True
  have "good_canvas (plot cv (py_round c0, py_round r0) CHR ''+'')"
    using assms by (rule plot_good) (simp add: glyphs_def)
  then show ?thesis
    using True by (simp add: line_spec_def)
next
  case False
  have "good_canvas (fold (\<lambda>i cv. plot cv (sample c0 r0 c1 r1 i) (glyph_of (local_dir c0 r0 c1 r1 i)))
             [0 ..< nat (line_steps c0 r0 c1 r1) + 1] cv)"
    using assms by (rule fold_plot_good) (rule glyph_of_in)
  then show ?thesis
    using False by (simp only: line_spec_def if_False)
qed

lemma fold_opt_invariant:
  assumes "P s" "\<And>x s. x \<in> set xs \<Longrightarrow> P s \<Longrightarrow> \<exists>s'. f x s = Some s' \<and> P s'"
  shows "\<exists>s'. fold_opt f xs s = Some s' \<and> P s'"
  using assms
proof (induction xs arbitrary: s)
  case Nil
  then show ?case by simp
next
  case (Cons x xs)
  from Cons.prems obtain s1 where s1: "f x s = Some s1" "P s1"
    by (meson list.set_intros(1))
  from Cons.IH [OF s1(2)] Cons.prems(2) obtain s' where "fold_opt f xs s1 = Some s'" "P s'"
    by (meson list.set_intros(2))
  then show ?case
    using s1 by simp
qed

lemma transform_verts_length:
  "length (fst (transform_verts ax ay az)) = 8" "length (snd (transform_verts ax ay az)) = 8"
  by (simp_all add: transform_verts_def VERTS_def split_def)

lemma draw_edges_good:
  assumes "good_canvas cv" "length verts_2d = 8"
  shows "\<exists>cv'. draw_edges cv visible_edges verts_2d = Some cv' \<and> good_canvas cv'"
  unfolding draw_edges_def
proof (rule fold_opt_invariant [where P = good_canvas])
  show "good_canvas cv" by (rule assms(1))
next
  fix e :: edge and s :: canvas
  assume e: "e \<in> set EDGES" and s: "good_canvas s"
  obtain i0 i1 where ei: "e = (i0, i1)" by (cases e)
  have rng: "0 \<le> i0" "i0 < 8" "0 \<le> i1" "i1 < 8"
    using e unfolding ei EDGES_def by auto
  obtain c0 r0 where p0: "verts_2d ! nat i0 = (c0, r0)" by (cases "verts_2d ! nat i0")
  obtain c1 r1 where p1: "verts_2d ! nat i1 = (c1, r1)" by (cases "verts_2d ! nat i1")
  have g0: "py_get verts_2d i0 = Some (c0, r0)" and g1: "py_get verts_2d i1 = Some (c1, r1)"
    using rng assms(2) p0 p1 by (simp_all add: py_get_nonneg)
  have "draw_line s c0 r0 c1 r1 = Some (line_spec s c0 r0 c1 r1)"
    using s by (simp add: draw_line_spec good_canvas_def)
  then show "\<exists>s'. (case e of (i0, i1) \<Rightarrow> \<lambda>canvas.
                 if \<not> edge_drawn visible_edges (i0, i1) then Some canvas
                 else do {
                   (c0, r0) \<leftarrow> py_get verts_2d i0;
                   (c1, r1) \<leftarrow> py_get verts_2d i1;
                   draw_line canvas c0 r0 c1 r1
                 }) s = Some s' \<and> good_canvas s'"
    using s line_spec_good [OF s] by (simp add: ei g0 g1)
qed

lemma draw_vertices_good:
  assumes "good_canvas cv"
  shows "\<exists>cv'. draw_vertices cv verts_2d = Some cv' \<and> good_canvas cv'"
proof -
  have "CHR ''o'' \<in> glyphs" by (simp add: glyphs_def)
  then have "good_canvas (fold (\<lambda>v cv. plot cv (round_pt v) CHR ''o'') verts_2d cv)"
    using assms by (intro fold_plot_good) simp_all
  then show ?thesis
    using assms by (simp add: draw_vertices_plot good_canvas_def)
qed

lemma good_blank: "good_canvas blank"
proof -
  have "glyph_canvas blank"
    by (simp add: glyph_canvas_def blank_def glyphs_def list_all_iff)
  then show ?thesis
    using wf_blank by (simp add: good_canvas_def)
qed

lemma blank_eq: "replicate (nat ROWS) (replicate (nat COLS) CHR '' '') = blank"
  by (simp add: blank_def ROWS_def COLS_def)

lemma join_empty: "join [] ps = concat ps"
  by (induction "[] :: string" ps rule: join.induct) simp_all

lemma join_cells: "map (join []) (map (map (\<lambda>ch. [ch])) cv) = cv"
proof -
  have "join [] (map (\<lambda>ch. [ch]) row) = row" for row :: string
    by (simp add: join_empty)
  then show ?thesis
    by (simp add: comp_def)
qed

lemma render_with_good:
  "\<exists>cv. render_with ax ay az = Some (join [CHR 0x0A] cv) \<and> good_canvas cv"
proof -
  obtain v3 v2 where tv: "transform_verts ax ay az = (v3, v2)"
    by (cases "transform_verts ax ay az")
  have len: "length v3 = 8" "length v2 = 8"
    using transform_verts_length [of ax ay az] by (simp_all add: tv)
  obtain cv1 where cv1: "draw_edges blank (visible_union v3) v2 = Some cv1" "good_canvas cv1"
    using draw_edges_good [OF good_blank len(2)] by blast
  obtain cv2 where cv2: "draw_vertices cv1 v2 = Some cv2" "good_canvas cv2"
    using draw_vertices_good [OF cv1(2)] by blast
  have "render_with ax ay az = Some (join [CHR 0x0A] cv2)"
    unfolding render_with_def join_cells
    by (simp add: tv visible_edges_of_eq [OF len(1)] blank_eq cv1 cv2)
  then show ?thesis
    using cv2(2) by blast
qed

lemma split_on_line:
  assumes "sep \<notin> set l"
  shows "split_on sep l = [l]" "split_on sep (l @ sep # rest) = l # split_on sep rest"
  using assms by (induction l) auto

lemma split_join:
  assumes "ls \<noteq> []" "\<forall>l \<in> set ls. sep \<notin> set l"
  shows "split_on sep (join [sep] ls) = ls"
  using assms
proof (induction "[sep]" ls rule: join.induct)
  case 1
  then show ?case by simp
next
  case (2 p)
  then show ?case by (simp add: split_on_line)
next
  case (3 p q ps)
  then show ?case by (simp add: split_on_line)
qed


lemma set_join: "set (join sep ps) \<subseteq> set sep \<union> \<Union> (set ` set ps)"
  by (induction sep ps rule: join.induct) auto

lemma good_canvas_lines:
  assumes "good_canvas cv"
  shows "cv \<noteq> []" "length cv = 17" "\<forall>l \<in> set cv. length l = 42"
        "\<forall>l \<in> set cv. set l \<subseteq> glyphs" "\<forall>l \<in> set cv. CHR 0x0A \<notin> set l"
proof -
  show len: "length cv = 17" and "\<forall>l \<in> set cv. length l = 42"
    using assms by (simp_all add: good_canvas_def wf_canvas_def ROWS_def COLS_def list_all_iff)
  show "cv \<noteq> []" using len by auto
  show g: "\<forall>l \<in> set cv. set l \<subseteq> glyphs"
    using assms by (simp add: good_canvas_def glyph_canvas_def list_all_iff)
  have "CHR 0x0A \<notin> glyphs" by (simp add: glyphs_def)
  then show "\<forall>l \<in> set cv. CHR 0x0A \<notin> set l" using g by auto
qed

lemma render_frame_good:
  "\<exists>cv. render_frame i = Some (join [CHR 0x0A] cv) \<and> good_canvas cv"
  using render_with_good by (simp add: render_frame_def split_def)

text \<open>
  C6. For every frame index \<open>i\<close> in \<open>[0, 36)\<close> the rendered frame string consists of
  exactly 17 (\<open>ROWS\<close>) lines separated by newlines, each exactly 42 (\<open>COLS\<close>)
  characters long; rendering never raises.
\<close>

theorem frame_has_17_lines_of_42:
  assumes "0 \<le> i" and "i < 36"
  shows "\<exists>s. render_frame i = Some s
           \<and> s = join [CHR 0x0A] (split_on (CHR 0x0A) s)
           \<and> length (split_on (CHR 0x0A) s) = 17
           \<and> (\<forall>l \<in> set (split_on (CHR 0x0A) s). length l = 42)"
proof -
  obtain cv where cv: "render_frame i = Some (join [CHR 0x0A] cv)" "good_canvas cv"
    using render_frame_good by blast
  have "split_on (CHR 0x0A) (join [CHR 0x0A] cv) = cv"
    using good_canvas_lines [OF cv(2)] by (intro split_join) simp_all
  then show ?thesis
    using cv(1) good_canvas_lines [OF cv(2)] by simp
qed

theorem frame_has_17_lines_of_42_witness:
  "\<exists>s. render_frame 0 = Some s
       \<and> length (split_on (CHR 0x0A) s) = 17
       \<and> (\<forall>l \<in> set (split_on (CHR 0x0A) s). length l = 42)"
  using frame_has_17_lines_of_42 [of 0] by auto

text \<open>
  C10. For every frame index, every character of the rendered frame string is one of
  exactly seven glyphs (space, \<open>-\<close>, \<open>|\<close>, backslash, \<open>/\<close>, \<open>+\<close>, \<open>o\<close>) besides the
  newlines that separate the rows.
\<close>

theorem frame_uses_seven_glyphs:
  "card glyphs = 7
   \<and> (\<exists>s. render_frame i = Some s
         \<and> set s \<subseteq> insert (CHR 0x0A) glyphs
         \<and> (\<forall>l \<in> set (split_on (CHR 0x0A) s). set l \<subseteq> glyphs))"
proof -
  obtain cv where cv: "render_frame i = Some (join [CHR 0x0A] cv)" "good_canvas cv"
    using render_frame_good by blast
  have sp: "split_on (CHR 0x0A) (join [CHR 0x0A] cv) = cv"
    using good_canvas_lines [OF cv(2)] by (intro split_join) simp_all
  have "set (join [CHR 0x0A] cv) \<subseteq> insert (CHR 0x0A) glyphs"
    using set_join [of "[CHR 0x0A]" cv] good_canvas_lines(4) [OF cv(2)] by auto
  moreover have "card glyphs = 7"
    by (simp add: glyphs_def)
  ultimately show ?thesis
    using cv(1) sp good_canvas_lines(4) [OF cv(2)] by simp
qed

theorem frame_uses_seven_glyphs_witness:
  "\<exists>s. render_frame 0 = Some s
       \<and> set s \<subseteq> insert (CHR 0x0A) glyphs
       \<and> (\<forall>l \<in> set (split_on (CHR 0x0A) s). set l \<subseteq> glyphs)"
  using frame_uses_seven_glyphs [of 0] by simp

section \<open>The draw loop and the rendered frame\<close>

lemma edge_line_wf: "wf_canvas cv \<Longrightarrow> wf_canvas (edge_line verts_2d e cv)"
  by (simp add: edge_line_def line_spec_wf split: prod.splits)

lemma edge_lines_wf: "wf_canvas cv \<Longrightarrow> wf_canvas (edge_lines cv verts_2d es)"
  unfolding edge_lines_def by (induction es arbitrary: cv) (simp_all add: edge_line_wf)

lemma draw_edge_step:
  assumes "wf_canvas cv" "length verts_2d = 8" "(i0, i1) \<in> set EDGES"
  shows "do { (c0, r0) \<leftarrow> py_get verts_2d i0;
              (c1, r1) \<leftarrow> py_get verts_2d i1;
              draw_line cv c0 r0 c1 r1 }
         = Some (edge_line verts_2d (i0, i1) cv)"
proof -
  have rng: "0 \<le> i0" "i0 < 8" "0 \<le> i1" "i1 < 8"
    using assms(3) unfolding EDGES_def by auto
  have g0: "py_get verts_2d i0 = Some (verts_2d ! nat i0)"
    and g1: "py_get verts_2d i1 = Some (verts_2d ! nat i1)"
    using rng assms(2) by (simp_all add: py_get_nonneg)
  show ?thesis
    by (simp add: g0 g1 edge_line_def draw_line_spec [OF assms(1)] split: prod.splits)
qed

lemma draw_edges_loop:
  assumes "wf_canvas cv" "length verts_2d = 8" "set es \<subseteq> set EDGES"
  shows "fold_opt (\<lambda>(i0, i1) canvas.
                 if \<not> edge_drawn visible_edges (i0, i1) then Some canvas
                 else do {
                   (c0, r0) \<leftarrow> py_get verts_2d i0;
                   (c1, r1) \<leftarrow> py_get verts_2d i1;
                   draw_line canvas c0 r0 c1 r1
                 }) es cv
         = Some (edge_lines cv verts_2d (filter (edge_drawn visible_edges) es))"
  using assms(1,3)
proof (induction es arbitrary: cv)
  case Nil
  show ?case by (simp add: edge_lines_def)
next
  case (Cons e es)
  obtain i0 i1 where e: "e = (i0, i1)" by (cases e)
  have mem: "(i0, i1) \<in> set EDGES" and rest: "set es \<subseteq> set EDGES"
    using Cons.prems(2) e by simp_all
  show ?case
  proof (cases "edge_drawn visible_edges (i0, i1)")
    case False
    then show ?thesis
      using Cons.IH [OF Cons.prems(1) rest] by (simp add: e)
  next
    case True
    have wf': "wf_canvas (edge_line verts_2d (i0, i1) cv)"
      using Cons.prems(1) by (rule edge_line_wf)
    show ?thesis
      using True Cons.IH [OF wf' rest] draw_edge_step [OF Cons.prems(1) assms(2) mem]
      by (simp add: e edge_lines_def)
  qed
qed

lemma draw_edges_lines:
  assumes "wf_canvas cv" "length verts_2d = 8"
  shows "draw_edges cv visible_edges verts_2d
         = Some (edge_lines cv verts_2d (filter (edge_drawn visible_edges) EDGES))"
  unfolding draw_edges_def using assms by (intro draw_edges_loop) simp_all

lemma drawn_filter:
  assumes "length vs = 8"
  shows "filter (edge_drawn (visible_union vs)) EDGES = filter (bounds_visible_face vs) EDGES"
proof (rule filter_cong [OF refl])
  fix e assume "e \<in> set EDGES"
  then show "edge_drawn (visible_union vs) e = bounds_visible_face vs e"
    using drawn_iff_boundary [OF assms] by (simp add: bounds_visible_face_def list_ex_iff)
qed

lemma transform_verts_eq:
  "transform_verts ax ay az
   = (rotated_cube ax ay az, map (\<lambda>(x, y, z). project x y z) (rotated_cube ax ay az))"
  by (simp add: transform_verts_def rotated_cube_def VERTS_def split_def)

lemma rotated_cube_length: "length (rotated_cube ax ay az) = 8"
  by (simp add: rotated_cube_def VERTS_def)

lemma render_with_canvas:
  "render_with ax ay az = Some (join [CHR 0x0A] (frame_canvas (rotated_cube ax ay az)))"
proof -
  define v3 where "v3 = rotated_cube ax ay az"
  define v2 where "v2 = map (\<lambda>(x, y, z). project x y z) v3"
  define cv1 where "cv1 = edge_lines blank v2 (filter (bounds_visible_face v3) EDGES)"
  have len: "length v3 = 8" "length v2 = 8"
    by (simp_all add: v3_def v2_def rotated_cube_length)
  have vis: "visible_edges_of v3 = Some (visible_union v3)"
    using len(1) by (rule visible_edges_of_eq)
  have e: "draw_edges blank (visible_union v3) v2 = Some cv1"
    unfolding cv1_def drawn_filter [OF len(1), symmetric]
    using wf_blank len(2) by (rule draw_edges_lines)
  have wf1: "wf_canvas cv1"
    unfolding cv1_def using wf_blank by (rule edge_lines_wf)
  have v: "draw_vertices cv1 v2 = Some (fold (\<lambda>v cv. plot cv (round_pt v) CHR ''o'') v2 cv1)"
    using wf1 by (rule draw_vertices_plot)
  have fc: "frame_canvas v3 = fold (\<lambda>v cv. plot cv (round_pt v) CHR ''o'') v2 cv1"
    by (simp add: frame_canvas_def Let_def v2_def cv1_def)
  have "render_with ax ay az = Some (join [CHR 0x0A] (frame_canvas v3))"
    unfolding render_with_def join_cells transform_verts_eq fc
    by (simp add: v3_def [symmetric] v2_def [symmetric] vis blank_eq e v)
  then show ?thesis
    by (simp add: v3_def)
qed


lemma unrotated_bounds:
  "filter (bounds_visible_face unrotated) EDGES = [(4, 5), (5, 6), (6, 7), (7, 4)]"
proof -
  have len: "length unrotated = 8"
    by (simp add: unrotated_eq)
  have "visible_union unrotated = {(4, 5), (5, 6), (6, 7), (7, 4)}"
    using visible_edges_of_eq [OF len] by (simp add: unrotated_visible_edges)
  then have "filter (edge_drawn (visible_union unrotated)) EDGES = [(4, 5), (5, 6), (6, 7), (7, 4)]"
    by (simp add: EDGES_def edge_drawn_def)
  then show ?thesis
    by (simp only: drawn_filter [OF len])
qed

lemma edge_lines_example:
  "edge_lines blank [(3, 2), (3, 2), (3, 2), (3, 2), (10, 5), (10, 5), (10, 5), (10, 5)]
     [(4, 5), (5, 6), (6, 7), (7, 4)]
   = blank[5 := (blank ! 5)[10 := CHR ''+'']]"
proof -
  have st: "line_steps 10 5 10 5 = 0"
    by (simp add: line_steps_def)
  have rnd: "py_round 10 = 10" "py_round 5 = 5"
    by (simp_all add: py_round_def)
  have one: "line_spec cv 10 5 10 5 = plot cv (10, 5) CHR ''+''" for cv
    by (simp add: line_spec_def st rnd)
  show ?thesis
    by (simp add: edge_lines_def edge_line_def one plot_def in_grid_def ROWS_def COLS_def blank_def)
qed

text \<open>
  C2. For every list of the cube's rotated vertices, a face is classified visible if and
  only if the Z-component of the cross product of the two edge vectors from its first three
  vertices is strictly positive (a Z-component of exactly zero means not visible), and an
  edge is drawn if and only if it is a boundary edge of at least one visible face: the draw
  loop draws the line of exactly those edges, in the order of \<open>EDGES\<close>, and of no other
  edge.
\<close>

theorem culling_rule:
  assumes "length verts_3d = 8"
  shows "(\<forall>face \<in> set FACES.
            face_visible verts_3d face cam_z = Some (0 < normal_z verts_3d face)
            \<and> (normal_z verts_3d face = 0 \<longrightarrow> face_visible verts_3d face cam_z = Some False))
         \<and> (\<exists>visible_edges. visible_edges_of verts_3d = Some visible_edges
              \<and> (\<forall>e \<in> set EDGES.
                    edge_drawn visible_edges e \<longleftrightarrow>
                    (\<exists>face \<in> set FACES.
                        face_visible verts_3d face 10 = Some True \<and> boundary_edge face e))
              \<and> (\<forall>canvas verts_2d. wf_canvas canvas \<and> length verts_2d = 8 \<longrightarrow>
                    draw_edges canvas visible_edges verts_2d
                    = Some (edge_lines canvas verts_2d
                              (filter (bounds_visible_face verts_3d) EDGES))))"
proof (intro conjI)
  show "\<forall>face \<in> set FACES.
          face_visible verts_3d face cam_z = Some (0 < normal_z verts_3d face)
          \<and> (normal_z verts_3d face = 0 \<longrightarrow> face_visible verts_3d face cam_z = Some False)"
    using assms by (simp add: FACES_def face_visible_normal)
next
  have vis: "visible_edges_of verts_3d = Some (visible_union verts_3d)"
    using assms by (rule visible_edges_of_eq)
  have iff: "\<forall>e \<in> set EDGES.
      edge_drawn (visible_union verts_3d) e \<longleftrightarrow>
      (\<exists>face \<in> set FACES. face_visible verts_3d face 10 = Some True \<and> boundary_edge face e)"
    using assms by (blast intro: drawn_iff_boundary [THEN iffD1] drawn_iff_boundary [THEN iffD2])
  have loop: "\<forall>canvas verts_2d. wf_canvas canvas \<and> length verts_2d = 8 \<longrightarrow>
      draw_edges canvas (visible_union verts_3d) verts_2d
      = Some (edge_lines canvas verts_2d (filter (bounds_visible_face verts_3d) EDGES))"
    by (simp add: draw_edges_lines drawn_filter [OF assms])
  show "\<exists>visible_edges. visible_edges_of verts_3d = Some visible_edges
      \<and> (\<forall>e \<in> set EDGES.
            edge_drawn visible_edges e \<longleftrightarrow>
            (\<exists>face \<in> set FACES.
                face_visible verts_3d face 10 = Some True \<and> boundary_edge face e))
      \<and> (\<forall>canvas verts_2d. wf_canvas canvas \<and> length verts_2d = 8 \<longrightarrow>
            draw_edges canvas visible_edges verts_2d
            = Some (edge_lines canvas verts_2d (filter (bounds_visible_face verts_3d) EDGES)))"
    using vis iff loop by blast
qed

theorem culling_rule_witness:
  "length unrotated = 8
   \<and> face_visible unrotated (4, 5, 6, 7) 10 = Some True
   \<and> face_visible unrotated (0, 1, 5, 4) 10 = Some False
   \<and> normal_z unrotated (0, 1, 5, 4) = 0
   \<and> (\<exists>visible_edges. visible_edges_of unrotated = Some visible_edges
        \<and> edge_drawn visible_edges (4, 5) \<and> \<not> edge_drawn visible_edges (0, 1)
        \<and> draw_edges blank visible_edges
             [(3, 2), (3, 2), (3, 2), (3, 2), (10, 5), (10, 5), (10, 5), (10, 5)]
           = Some (blank[5 := (blank ! 5)[10 := CHR ''+'']]))"
proof -
  have len: "length unrotated = 8"
    by (simp add: unrotated_eq)
  have nz: "normal_z unrotated (4, 5, 6, 7) > 0" "normal_z unrotated (0, 1, 5, 4) = 0"
    by (simp_all add: unrotated_eq normal_z_def cross_def vsub_def)
  have faces: "(4, 5, 6, 7) \<in> set FACES" "(0, 1, 5, 4) \<in> set FACES"
    by (simp_all add: FACES_def)
  note rule = culling_rule [OF len, of 10]
  from rule faces nz
  have fv: "face_visible unrotated (4, 5, 6, 7) 10 = Some True"
    "face_visible unrotated (0, 1, 5, 4) 10 = Some False"
    by auto
  from rule obtain vis where vis: "visible_edges_of unrotated = Some vis"
    and loop: "\<forall>canvas verts_2d. wf_canvas canvas \<and> length verts_2d = 8 \<longrightarrow>
            draw_edges canvas vis verts_2d
            = Some (edge_lines canvas verts_2d (filter (bounds_visible_face unrotated) EDGES))"
    by blast
  have v: "vis = {(4, 5), (5, 6), (6, 7), (7, 4)}"
    using vis by (simp add: unrotated_visible_edges)
  have "wf_canvas blank \<and> length [(3, 2), (3, 2), (3, 2), (3, 2), (10, 5), (10, 5), (10, 5), (10::real, 5::real)] = 8"
    by (simp add: wf_blank)
  with loop have "draw_edges blank vis
             [(3, 2), (3, 2), (3, 2), (3, 2), (10, 5), (10, 5), (10, 5), (10, 5)]
           = Some (blank[5 := (blank ! 5)[10 := CHR ''+'']])"
    by (simp only: unrotated_bounds edge_lines_example)
  moreover have "edge_drawn vis (4, 5) \<and> \<not> edge_drawn vis (0, 1)"
    by (simp add: v edge_drawn_def)
  ultimately show ?thesis
    using len nz fv vis by blast
qed

text \<open>
  C5. For every frame index \<open>i\<close> in \<open>[0, NUM_FRAMES)\<close>, with \<open>t = 2 * pi * i / NUM_FRAMES\<close>,
  the frame is rendered with the angles \<open>ax = 0.6\<close>, \<open>ay = t + pi / 4\<close> and
  \<open>az = 0.35 * t + 0.3\<close>: the rendered string is the canvas of the cube rotated by \<open>rot\<close>
  with exactly these angles. Frame index 0 uses exactly \<open>ax = 0.6\<close>, \<open>ay = pi / 4\<close>,
  \<open>az = 0.3\<close>.
\<close>

theorem frame_angle_schedule:
  assumes "0 \<le> i" and "i < NUM_FRAMES"
  shows "frame_angles i
           = (0.6, 2 * pi * of_int i / of_int NUM_FRAMES + pi / 4,
              0.35 * (2 * pi * of_int i / of_int NUM_FRAMES) + 0.3)
         \<and> render_frame i
           = render_with 0.6 (2 * pi * of_int i / of_int NUM_FRAMES + pi / 4)
               (0.35 * (2 * pi * of_int i / of_int NUM_FRAMES) + 0.3)
         \<and> frame_angles 0 = (0.6, pi / 4, 0.3)
         \<and> render_frame 0 = render_with 0.6 (pi / 4) 0.3
         \<and> render_frame i
           = Some (join [CHR 0x0A]
               (frame_canvas
                  (rotated_cube 0.6 (2 * pi * of_int i / of_int NUM_FRAMES + pi / 4)
                     (0.35 * (2 * pi * of_int i / of_int NUM_FRAMES) + 0.3))))
         \<and> render_frame 0 = Some (join [CHR 0x0A] (frame_canvas (rotated_cube 0.6 (pi / 4) 0.3)))"
proof -
  have sched: "frame_angles i
           = (0.6, 2 * pi * of_int i / of_int NUM_FRAMES + pi / 4,
              0.35 * (2 * pi * of_int i / of_int NUM_FRAMES) + 0.3)"
    and sched0: "frame_angles 0 = (0.6, pi / 4, 0.3)"
    by (simp_all add: frame_angles_def Let_def)
  show ?thesis
    unfolding render_frame_def sched sched0 prod.case render_with_canvas
    by simp
qed

theorem frame_angle_schedule_witness:
  "(0::int) \<le> 35 \<and> 35 < NUM_FRAMES
   \<and> frame_angles 35 = (0.6, 2 * pi * 35 / 36 + pi / 4, 0.35 * (2 * pi * 35 / 36) + 0.3)
   \<and> frame_angles 0 = (0.6, pi / 4, 0.3)
   \<and> render_frame 35
       = Some (join [CHR 0x0A]
           (frame_canvas (rotated_cube 0.6 (2 * pi * 35 / 36 + pi / 4)
              (0.35 * (2 * pi * 35 / 36) + 0.3))))
   \<and> render_frame 0 = Some (join [CHR 0x0A] (frame_canvas (rotated_cube 0.6 (pi / 4) 0.3)))"
proof -
  have rng: "(0::int) \<le> 35" "(35::int) < NUM_FRAMES"
    by (simp_all add: NUM_FRAMES_def)
  from frame_angle_schedule [OF rng]
  have "frame_angles 35
          = (0.6, 2 * pi * of_int 35 / of_int NUM_FRAMES + pi / 4,
             0.35 * (2 * pi * of_int 35 / of_int NUM_FRAMES) + 0.3)"
    and "frame_angles 0 = (0.6, pi / 4, 0.3)"
    and "render_frame 35
          = Some (join [CHR 0x0A]
              (frame_canvas
                 (rotated_cube 0.6 (2 * pi * of_int 35 / of_int NUM_FRAMES + pi / 4)
                    (0.35 * (2 * pi * of_int 35 / of_int NUM_FRAMES) + 0.3))))"
    and "render_frame 0 = Some (join [CHR 0x0A] (frame_canvas (rotated_cube 0.6 (pi / 4) 0.3)))"
    by blast+
  then show ?thesis
    using rng by (simp add: NUM_FRAMES_def)
qed

section \<open>Driver\<close>

lemma render_frame_some: "\<exists>s. render_frame i = Some s"
  using render_frame_good by blast

lemma main_loop:
  "fold_opt (\<lambda>f fs. do { text \<leftarrow> render_frame (f - 1);
                        Some (write_text (frame_path root_dir f) text fs) })
     fl fs
   = Some (fold (\<lambda>f fs. write_text (frame_path root_dir f) (the (render_frame (f - 1))) fs) fl fs)"
proof (induction fl arbitrary: fs)
  case Nil
  show ?case by simp
next
  case (Cons f fl)
  obtain s where "render_frame (f - 1) = Some s"
    using render_frame_some by blast
  then show ?case
    by (simp add: Cons.IH)
qed

lemma write_text_apply: "write_text p t fs q = (if q = p then Some t else fs q)"
  by (simp add: write_text_def)

lemma fold_write_other:
  assumes "p \<notin> k ` set fl"
  shows "fold (\<lambda>f m. write_text (k f) (v f) m) fl m p = m p"
  using assms by (induction fl arbitrary: m) (auto simp: write_text_apply)

lemma fold_write_at:
  assumes "f \<in> set fl" "distinct (map k fl)"
  shows "fold (\<lambda>f m. write_text (k f) (v f) m) fl m (k f) = Some (v f)"
  using assms
proof (induction fl arbitrary: m)
  case Nil
  then show ?case by simp
next
  case (Cons x xs)
  show ?case
  proof (cases "f = x")
    case True
    have "k x \<notin> k ` set xs" using Cons.prems(2) by simp
    then have "fold (\<lambda>f m. write_text (k f) (v f) m) xs (write_text (k x) (v x) m) (k x)
               = write_text (k x) (v x) m (k x)"
      by (rule fold_write_other)
    also have "\<dots> = Some (v x)"
      by (rule write_text_apply [THEN trans]) simp
    finally show ?thesis
      using True by simp
  next
    case False
    then have "f \<in> set xs" "distinct (map k xs)"
      using Cons.prems by simp_all
    then show ?thesis
      by (simp add: Cons.IH)
  qed
qed

lemma str_int_tags: "distinct (map str_int (map int [0 ..< 37]))"
  by code_simp

lemma str_int_vals: "str_int 0 = ''0''" "str_int 1 = ''1''" "str_int 36 = ''36''"
  by code_simp+

lemma frame_numbers_eq: "frame_numbers = map int [1 ..< 37]" "set frame_numbers = {1 .. NUM_FRAMES}"
proof -
  show e: "frame_numbers = map int [1 ..< 37]"
    by (simp add: frame_numbers_def NUM_FRAMES_def)
  have "int ` {1 ..< 37} = {1 .. 36}"
    by (auto simp: image_int_atLeastLessThan)
  then show "set frame_numbers = {1 .. NUM_FRAMES}"
    unfolding e by (simp add: NUM_FRAMES_def)
qed

lemma frame_path_inj: "frame_path root_dir f = frame_path root_dir g \<longleftrightarrow> str_int f = str_int g"
  by (simp add: frame_path_def)

lemma frame_paths_distinct: "distinct (map (frame_path root_dir) (map int [0 ..< 37]))"
proof -
  have "inj_on (\<lambda>t. root_dir @ ''/'' @ ''frame_'' @ t @ ''.txt'') A" for A
    by (rule inj_onI) simp
  then have "distinct (map (\<lambda>t. root_dir @ ''/'' @ ''frame_'' @ t @ ''.txt'') (map str_int (map int [0 ..< 37])))"
    using str_int_tags by (simp only: distinct_map)
  then show ?thesis
    by (simp only: map_map comp_def frame_path_def)
qed


lemma main_eq:
  "main root_dir fs
   = Some (fold (\<lambda>f fs. write_text (frame_path root_dir f) (the (render_frame (f - 1))) fs)
             frame_numbers fs)"
  by (simp only: main_def main_loop frame_numbers_def)

lemma frame_tags:
  "distinct (map (frame_path root_dir) frame_numbers)"
  "frame_path root_dir 0 \<notin> frame_path root_dir ` set frame_numbers"
proof -
  have "map int [0 ..< 37] = 0 # frame_numbers"
    by (simp add: frame_numbers_eq(1) upt_conv_Cons)
  then have "distinct (map (frame_path root_dir) (0 # frame_numbers))"
    using frame_paths_distinct [of root_dir] by simp
  then show "distinct (map (frame_path root_dir) frame_numbers)"
    and "frame_path root_dir 0 \<notin> frame_path root_dir ` set frame_numbers"
    by simp_all
qed

lemma main_file:
  assumes "f \<in> set frame_numbers"
  shows "\<exists>fs'. main root_dir fs = Some fs' \<and> fs' (frame_path root_dir f) = render_frame (f - 1)"
proof -
  obtain s where s: "render_frame (f - 1) = Some s"
    using render_frame_some by blast
  have "fold (\<lambda>f fs. write_text (frame_path root_dir f) (the (render_frame (f - 1))) fs)
          frame_numbers fs (frame_path root_dir f) = Some (the (render_frame (f - 1)))"
    using assms frame_tags(1) by (rule fold_write_at)
  then show ?thesis
    by (simp add: main_eq s)
qed

lemma main_other:
  assumes "p \<notin> frame_path root_dir ` set frame_numbers"
  shows "\<exists>fs'. main root_dir fs = Some fs' \<and> fs' p = fs p"
  using fold_write_other [OF assms] by (simp add: main_eq)

text \<open>
  C7, amended. The driver writes exactly \<open>NUM_FRAMES = 36\<close> output files, one per frame
  index from 0 to \<open>NUM_FRAMES - 1\<close>, named with a 1-based numeric suffix: frame index
  \<open>N\<close> is persisted to the file tagged \<open>N + 1\<close> (\<^verbatim>\<open>frame_1.txt\<close> to
  \<^verbatim>\<open>frame_36.txt\<close>); no other file changes.
\<close>

theorem main_writes_frames_one_based:
  "(\<exists>fs'. main root_dir fs = Some fs'
      \<and> (\<forall>n. 0 \<le> n \<and> n < NUM_FRAMES \<longrightarrow> fs' (frame_path root_dir (n + 1)) = render_frame n)
      \<and> (\<forall>p. p \<notin> frame_path root_dir ` {1 .. NUM_FRAMES} \<longrightarrow> fs' p = fs p))
   \<and> card (frame_path root_dir ` {1 .. NUM_FRAMES}) = 36
   \<and> frame_path root_dir 1 = root_dir @ ''/frame_1.txt''
   \<and> frame_path root_dir 36 = root_dir @ ''/frame_36.txt''"
proof (intro conjI)
  obtain fs' where fs': "main root_dir fs = Some fs'"
    by (simp add: main_eq)
  have "fs' (frame_path root_dir (n + 1)) = render_frame n" if "0 \<le> n \<and> n < NUM_FRAMES" for n
  proof -
    have "n + 1 \<in> set frame_numbers"
      using that by (simp add: frame_numbers_eq(2))
    from main_file [OF this, of root_dir fs] fs' show ?thesis
      by simp
  qed
  moreover have "fs' p = fs p" if "p \<notin> frame_path root_dir ` {1 .. NUM_FRAMES}" for p
    using main_other [of p root_dir fs] that fs' by (simp add: frame_numbers_eq(2))
  ultimately show "\<exists>fs'. main root_dir fs = Some fs'
      \<and> (\<forall>n. 0 \<le> n \<and> n < NUM_FRAMES \<longrightarrow> fs' (frame_path root_dir (n + 1)) = render_frame n)
      \<and> (\<forall>p. p \<notin> frame_path root_dir ` {1 .. NUM_FRAMES} \<longrightarrow> fs' p = fs p)"
    using fs' by blast
next
  have "card (set (map (frame_path root_dir) frame_numbers)) = length (map (frame_path root_dir) frame_numbers)"
    using frame_tags(1) by (rule distinct_card)
  then show "card (frame_path root_dir ` {1 .. NUM_FRAMES}) = 36"
    by (simp add: frame_numbers_eq(2)) (simp add: frame_numbers_eq(1))
next
  show "frame_path root_dir 1 = root_dir @ ''/frame_1.txt''"
    by (simp add: frame_path_def str_int_vals)
  show "frame_path root_dir 36 = root_dir @ ''/frame_36.txt''"
    by (simp add: frame_path_def str_int_vals)
qed

theorem main_writes_frames_one_based_witness:
  "\<exists>fs'. main ''frames/default'' Map.empty = Some fs'
      \<and> fs' ''frames/default/frame_1.txt'' = render_frame 0
      \<and> fs' ''frames/default/frame_36.txt'' = render_frame 35"
proof -
  from main_writes_frames_one_based [of "''frames/default''" Map.empty]
  obtain fs' where m: "main ''frames/default'' Map.empty = Some fs'"
    and all: "\<forall>n. 0 \<le> n \<and> n < NUM_FRAMES \<longrightarrow> fs' (frame_path ''frames/default'' (n + 1)) = render_frame n"
    and p1: "frame_path ''frames/default'' 1 = ''frames/default'' @ ''/frame_1.txt''"
    and p36: "frame_path ''frames/default'' 36 = ''frames/default'' @ ''/frame_36.txt''"
    by blast
  have "(0::int) \<le> 0 \<and> 0 < NUM_FRAMES" and "(0::int) \<le> 35 \<and> 35 < NUM_FRAMES"
    by (simp_all add: NUM_FRAMES_def)
  with all have "fs' (frame_path ''frames/default'' (0 + 1)) = render_frame 0"
    and "fs' (frame_path ''frames/default'' (35 + 1)) = render_frame 35"
    by blast+
  then have "fs' ''frames/default/frame_1.txt'' = render_frame 0"
    and "fs' ''frames/default/frame_36.txt'' = render_frame 35"
    using p1 p36 by simp_all
  then show ?thesis
    using m by blast
qed

text \<open>
  C7 as stated: frame index \<open>N\<close> is persisted to the file tagged \<open>N\<close>. For \<open>N = 0\<close>
  the driver, run on an empty file system, writes no file tagged \<open>0\<close>; frame index 0 is
  in the file tagged \<open>1\<close>.
\<close>

theorem frame_index_0_not_in_file_0:
  "main ''frames/default'' Map.empty \<noteq> None
   \<and> frame_path ''frames/default'' 0 = ''frames/default/frame_0.txt''
   \<and> the (main ''frames/default'' Map.empty) (frame_path ''frames/default'' 0) = None
   \<and> render_frame 0 \<noteq> None
   \<and> the (main ''frames/default'' Map.empty) (frame_path ''frames/default'' 1) = render_frame 0"
proof -
  have p0: "frame_path ''frames/default'' 0 = ''frames/default/frame_0.txt''"
    by (simp add: frame_path_def str_int_vals)
  have "1 \<in> set frame_numbers"
    by (simp add: frame_numbers_eq(2) NUM_FRAMES_def)
  from main_file [OF this, of "''frames/default''" Map.empty]
  have f1: "the (main ''frames/default'' Map.empty) (frame_path ''frames/default'' 1) = render_frame 0"
    by auto
  from main_other [OF frame_tags(2), of "''frames/default''" Map.empty]
  have f0: "the (main ''frames/default'' Map.empty) (frame_path ''frames/default'' 0) = None"
    by auto
  have "render_frame 0 \<noteq> None"
    using render_frame_some [of 0] by auto
  then show ?thesis
    using p0 f0 f1 by (simp add: main_eq)
qed

end
